theory Spec2Isabelle
  imports Complex_Main "HOL-Library.Multiset" "HOL-Library.List_Lexorder"
begin

section \<open>Data model\<close>

text \<open>
  The two scripts keep every replica and every server in a Python dict indexed by the
  five names of \<open>RESOURCE_KEYS\<close> (plus \<open>"Servicio"\<close> for a replica and \<open>"name"\<close>,
  \<open>"services"\<close>, \<open>"instances"\<close> for a server).  The five names become a datatype, the
  numeric part of a dict a total function on it, and the remaining entries record fields.
  Python floats are modelled as exact reals: rounding, infinities and NaN are outside
  the model.  The only arithmetic failure kept is the \<open>ZeroDivisionError\<close> that a float
  division by \<open>0.0\<close> raises.
\<close>

datatype resource = CPU | Memoria | Red | Disco_IO | Almacenamiento

definition RESOURCE_KEYS :: "resource list" where
  "RESOURCE_KEYS = [CPU, Memoria, Red, Disco_IO, Almacenamiento]"

type_synonym caps = "resource \<Rightarrow> real"

record inst =
  Servicio :: string
  res :: "resource \<Rightarrow> real"

record server =
  name :: string
  usage :: "resource \<Rightarrow> real"
  services :: "string set"
  instances :: "inst list"

datatype error = ZeroDivisionError

section \<open>Library functions of Python used by the scripts\<close>

text \<open>
  \<open>sorted(xs, key=f, reverse=True)\<close>: CPython reverses the list, sorts it stably in
  ascending key order and reverses the result, so that equal keys keep their input order.
  \<open>sort_key\<close> is the stable insertion sort of the HOL library.
\<close>

definition py_sorted_reverse :: "('a \<Rightarrow> 'k::linorder) \<Rightarrow> 'a list \<Rightarrow> 'a list" where
  "py_sorted_reverse f xs = rev (sort_key f (rev xs))"

text \<open>\<open>str(n)\<close> for a natural number, as used by the f-string \<open>f"S{len(servers)+1}"\<close>.\<close>

definition digit :: "nat \<Rightarrow> char" where
  "digit d = ''0123456789'' ! d"

fun str_nat :: "nat \<Rightarrow> string" where
  "str_nat n = (if n < 10 then [digit n] else str_nat (n div 10) @ [digit (n mod 10)])"

declare str_nat.simps [simp del]

text \<open>
  \<open>itertools.permutations(xs, r)\<close>: the \<open>r\<close>-length arrangements of \<open>xs\<close>, by position,
  in the order itertools emits them; \<open>r\<close> defaults to \<open>len(xs)\<close>.
\<close>

primrec selections :: "'a list \<Rightarrow> ('a \<times> 'a list) list" where
  "selections [] = []"
| "selections (x # xs) = (x, xs) # map (\<lambda>(y, ys). (y, x # ys)) (selections xs)"

primrec permutations_r :: "nat \<Rightarrow> 'a list \<Rightarrow> 'a list list" where
  "permutations_r 0 xs = [[]]"
| "permutations_r (Suc r) xs =
     concat (map (\<lambda>(y, ys). map ((#) y) (permutations_r r ys)) (selections xs))"

definition permutations :: "'a list \<Rightarrow> 'a list list" where
  "permutations xs = permutations_r (length xs) xs"

section \<open>script1.py: feasibility check and First-Fit Decreasing\<close>

definition can_host :: "server \<Rightarrow> inst \<Rightarrow> caps \<Rightarrow> bool" where
  "can_host s i caps =
     (if Servicio i \<in> services s then False
      else list_all (\<lambda>k. usage s k + res i k \<le> caps k) RESOURCE_KEYS)"

text \<open>The body of the \<open>if can_host(...)\<close> branch: the server \<open>s\<close> takes the replica.\<close>

definition add_inst :: "server \<Rightarrow> inst \<Rightarrow> server" where
  "add_inst s i =
     s\<lparr>usage := (\<lambda>k. usage s k + res i k),
       services := insert (Servicio i) (services s),
       instances := instances s @ [i]\<rparr>"

text \<open>The dict appended by the \<open>else\<close> branch, \<open>n\<close> being \<open>len(servers)+1\<close>.\<close>

definition new_server :: "nat \<Rightarrow> inst \<Rightarrow> server" where
  "new_server n i =
     \<lparr>name = ''S'' @ str_nat n, usage = (\<lambda>k. res i k),
      services = {Servicio i}, instances = [i]\<rparr>"

text \<open>
  The inner \<open>for s in servers\<close> loop: \<open>Some\<close> of the updated list when a server took the
  replica (the \<open>break\<close>), \<open>None\<close> when the loop ran to its end (the \<open>else\<close> of the loop).
\<close>

fun first_fit :: "caps \<Rightarrow> inst \<Rightarrow> server list \<Rightarrow> server list option" where
  "first_fit caps i [] = None"
| "first_fit caps i (s # ss) =
     (if can_host s i caps then Some (add_inst s i # ss)
      else map_option ((#) s) (first_fit caps i ss))"

text \<open>One iteration of the outer \<open>for inst in instances_sorted\<close> loop.\<close>

definition place :: "caps \<Rightarrow> server list \<Rightarrow> inst \<Rightarrow> server list" where
  "place caps servers i =
     (case first_fit caps i servers of
        Some servers' \<Rightarrow> servers'
      | None \<Rightarrow> servers @ [new_server (length servers + 1) i])"

text \<open>
  The sort key \<open>tuple(x[r] / caps[r] for r in crit_order)\<close>; a zero capacity raises.
  Tuples of floats are compared lexicographically, as lists of reals are here.
\<close>

fun key_tuple :: "caps \<Rightarrow> resource list \<Rightarrow> inst \<Rightarrow> error + real list" where
  "key_tuple caps [] x = Inr []"
| "key_tuple caps (r # rs) x =
     (if caps r = 0 then Inl ZeroDivisionError
      else case key_tuple caps rs x of
             Inl e \<Rightarrow> Inl e
           | Inr ks \<Rightarrow> Inr (res x r / caps r # ks))"

text \<open>\<open>sorted\<close> first computes the key of every element, in input order.\<close>

fun keyed :: "caps \<Rightarrow> resource list \<Rightarrow> inst list \<Rightarrow> error + (real list \<times> inst) list" where
  "keyed caps crit_order [] = Inr []"
| "keyed caps crit_order (x # xs) =
     (case key_tuple caps crit_order x of
        Inl e \<Rightarrow> Inl e
      | Inr k \<Rightarrow> (case keyed caps crit_order xs of
                   Inl e \<Rightarrow> Inl e
                 | Inr kxs \<Rightarrow> Inr ((k, x) # kxs)))"

definition ffd :: "inst list \<Rightarrow> caps \<Rightarrow> resource list \<Rightarrow> error + server list" where
  "ffd insts caps crit_order =
     (case keyed caps crit_order insts of
        Inl e \<Rightarrow> Inl e
      | Inr kxs \<Rightarrow> Inr (foldl (place caps) [] (map snd (py_sorted_reverse fst kxs))))"

section \<open>script1.py: the search over orderings\<close>

definition demand :: "inst list \<Rightarrow> resource \<Rightarrow> real" where
  "demand insts k = sum_list (map (\<lambda>i. res i k) insts)"

text \<open>\<open>{k: demand[k] / caps[k] for k in RESOURCE_KEYS}\<close>; a zero capacity raises.\<close>

definition criticity :: "inst list \<Rightarrow> caps \<Rightarrow> error + (resource \<Rightarrow> real)" where
  "criticity insts caps =
     (if list_ex (\<lambda>k. caps k = 0) RESOURCE_KEYS then Inl ZeroDivisionError
      else Inr (\<lambda>k. demand insts k / caps k))"

text \<open>\<open>sum(caps[k] - sum(s[k] for s in plan) for k in RESOURCE_KEYS)\<close>\<close>

definition spare :: "caps \<Rightarrow> server list \<Rightarrow> real" where
  "spare caps plan =
     sum_list (map (\<lambda>k. caps k - sum_list (map (\<lambda>s. usage s k) plan)) RESOURCE_KEYS)"

text \<open>The body of the loop over the candidate orderings, after \<open>plan = ffd(...)\<close>.\<close>

definition keep_best :: "caps \<Rightarrow> server list option \<Rightarrow> server list \<Rightarrow> server list option" where
  "keep_best caps best plan =
     (case best of
        None \<Rightarrow> Some plan
      | Some b \<Rightarrow>
          if length plan < length b then Some plan
          else if length plan = length b then
            (if spare caps plan < spare caps b then Some plan else Some b)
          else Some b)"

fun search :: "inst list \<Rightarrow> caps \<Rightarrow> resource list list \<Rightarrow> server list option
                 \<Rightarrow> error + server list option" where
  "search insts caps [] best = Inr best"
| "search insts caps (order # orders) best =
     (case ffd insts caps order of
        Inl e \<Rightarrow> Inl e
      | Inr plan \<Rightarrow> search insts caps orders (keep_best caps best plan))"

text \<open>
  \<open>best_plan\<close> draws from the process-wide generator of module \<open>random\<close>.  The call
  \<open>random.sample\<close> at the generator's current state is the parameter \<open>sample\<close>: a
  function from the population and the number of draws to the list drawn.
\<close>

definition best_plan :: "(resource list list \<Rightarrow> nat \<Rightarrow> resource list list) \<Rightarrow> inst list \<Rightarrow> caps
                          \<Rightarrow> error + server list option" where
  "best_plan sample insts caps =
     (case criticity insts caps of
        Inl e \<Rightarrow> Inl e
      | Inr crit \<Rightarrow>
          let crit_order = py_sorted_reverse crit RESOURCE_KEYS
          in search insts caps
               (crit_order # sample (permutations RESOURCE_KEYS)
                                (min 100 (fact (length RESOURCE_KEYS))))
               None)"

section \<open>script.py: the first version of the packer\<close>

text \<open>The \<open>for k in RESOURCE_KEYS\<close> loop of \<open>can_host\<close>, which returns at the first excess.\<close>

primrec within_caps :: "server \<Rightarrow> inst \<Rightarrow> caps \<Rightarrow> resource list \<Rightarrow> bool" where
  "within_caps s i caps [] = True"
| "within_caps s i caps (k # ks) =
     (if usage s k + res i k > caps k then False else within_caps s i caps ks)"

definition script_can_host :: "server \<Rightarrow> inst \<Rightarrow> caps \<Rightarrow> bool" where
  "script_can_host s i caps =
     (if Servicio i \<in> services s then False else within_caps s i caps RESOURCE_KEYS)"

fun script_first_fit :: "caps \<Rightarrow> inst \<Rightarrow> server list \<Rightarrow> server list option" where
  "script_first_fit caps i [] = None"
| "script_first_fit caps i (s # ss) =
     (if script_can_host s i caps then Some (add_inst s i # ss)
      else map_option ((#) s) (script_first_fit caps i ss))"

text \<open>One iteration of the outer loop; \<open>None\<close> is \<open>placed\<close> still being false.\<close>

definition script_place :: "caps \<Rightarrow> server list \<Rightarrow> inst \<Rightarrow> server list" where
  "script_place caps servers i =
     (case script_first_fit caps i servers of
        Some servers' \<Rightarrow> servers'
      | None \<Rightarrow> servers @ [new_server (length servers + 1) i])"

text \<open>The key is the tuple \<open>(x["CPU"], x["Red"], x["Memoria"])\<close>; nothing is divided.\<close>

definition first_fit_decreasing :: "inst list \<Rightarrow> caps \<Rightarrow> server list" where
  "first_fit_decreasing insts caps =
     foldl (script_place caps) []
       (py_sorted_reverse (\<lambda>x. [res x CPU, res x Red, res x Memoria]) insts)"

section \<open>Building replicas and capacities\<close>

text \<open>
  The dict that \<open>load_instances\<close> builds for one replica, and the dict \<open>caps\<close> that
  \<open>main\<close> builds from the command line, each from its five numbers.
\<close>

definition vec :: "real \<Rightarrow> real \<Rightarrow> real \<Rightarrow> real \<Rightarrow> real \<Rightarrow> resource \<Rightarrow> real" where
  "vec cpu mem net dio sto k =
     (case k of CPU \<Rightarrow> cpu | Memoria \<Rightarrow> mem | Red \<Rightarrow> net
              | Disco_IO \<Rightarrow> dio | Almacenamiento \<Rightarrow> sto)"

definition replica :: "string \<Rightarrow> real \<Rightarrow> real \<Rightarrow> real \<Rightarrow> real \<Rightarrow> real \<Rightarrow> inst" where
  "replica svc cpu mem net dio sto = \<lparr>Servicio = svc, res = vec cpu mem net dio sto\<rparr>"

section \<open>Derived notions used in the statements\<close>

text \<open>
  The sort key of \<open>ffd\<close> where no capacity of the ordering is zero, and the canonical
  ordering of \<open>best_plan\<close> where no capacity is zero: the values \<open>key_tuple\<close> and
  \<open>criticity\<close> return when they do not raise.
\<close>

definition norm_key :: "caps \<Rightarrow> resource list \<Rightarrow> inst \<Rightarrow> real list" where
  "norm_key caps crit_order x = map (\<lambda>r. res x r / caps r) crit_order"

definition crit_order_of :: "inst list \<Rightarrow> caps \<Rightarrow> resource list" where
  "crit_order_of insts caps = py_sorted_reverse (\<lambda>k. demand insts k / caps k) RESOURCE_KEYS"


text \<open>
  The two invariants of a server and the condition on a replica under which the first
  of them can hold at all: the replica alone does not exceed the capacity.
\<close>

definition within_capacity :: "caps \<Rightarrow> server \<Rightarrow> bool" where
  "within_capacity caps s = (\<forall>k. usage s k \<le> caps k)"

definition anti_affine :: "server \<Rightarrow> bool" where
  "anti_affine s =
     (distinct (map Servicio (instances s))
      \<and> services s = set (map Servicio (instances s))
      \<and> card (services s) = length (instances s))"

definition fits :: "caps \<Rightarrow> inst \<Rightarrow> bool" where
  "fits caps i = (\<forall>k. res i k \<le> caps k)"

text \<open>
  What \<open>random.sample(population, k)\<close> returns whatever the generator's state: \<open>k\<close>
  elements taken at \<open>k\<close> different positions of the population.  The population here
  has no repeated element, so the sample has none.  \<open>precedes a b xs\<close>: \<open>a\<close> occurs in
  \<open>xs\<close> before the first \<open>b\<close>.
\<close>

definition valid_sample :: "'a list \<Rightarrow> nat \<Rightarrow> 'a list \<Rightarrow> bool" where
  "valid_sample population k smp =
     (length smp = k \<and> distinct smp \<and> set smp \<subseteq> set population)"

definition precedes :: "'a \<Rightarrow> 'a \<Rightarrow> 'a list \<Rightarrow> bool" where
  "precedes a b xs = (a \<in> set (takeWhile (\<lambda>r. r \<noteq> b) xs))"

section \<open>The loops as runs\<close>







section \<open>Concrete inputs\<close>

text \<open>
  The capacity and the replicas of the specification's scenarios A to C, a generator
  state at which \<open>random.sample\<close> returns the first \<open>k\<close> elements of the population,
  scenario A's capacity with a negative and with a zero number of cores, and a list of
  four replicas with a fifth to append.
\<close>

definition caps_A :: caps where
  "caps_A = vec 2 4 100 50 200"

definition svcA :: inst where
  "svcA = replica ''svcA'' 1 2 50 10 50"

definition svcB :: inst where
  "svcB = replica ''svcB'' 1 2 50 10 50"

definition svc_big :: inst where
  "svc_big = replica ''svc'' 3 2 50 10 50"

definition first_k :: "resource list list \<Rightarrow> nat \<Rightarrow> resource list list" where
  "first_k population k = take k population"

definition plan_A :: "server list" where
  "plan_A = [\<lparr>name = ''S1'', usage = vec 2 4 100 20 100,
             services = {''svcA'', ''svcB''}, instances = [svcA, svcB]\<rparr>]"

definition caps_neg :: caps where
  "caps_neg = vec (- 2) 4 100 50 200"

definition caps_zero :: caps where
  "caps_zero = vec 0 4 100 50 200"

definition caps_6 :: caps where
  "caps_6 = vec 6 6 1 1 1"

definition four :: "inst list" where
  "four = [replica ''s1'' 2 2 0 0 0, replica ''s2'' 2 0 0 0 0,
           replica ''s0'' 4 3 0 0 0, replica ''s2'' 2 2 0 0 0]"

definition fifth :: inst where
  "fifth = replica ''s1'' 0 3 0 0 0"

section \<open>The feasibility check\<close>

lemma resource_all: "(\<forall>k. P k) = list_all P RESOURCE_KEYS"
proof
  assume "list_all P RESOURCE_KEYS"
  then have *: "P CPU" "P Memoria" "P Red" "P Disco_IO" "P Almacenamiento"
    by (simp_all add: RESOURCE_KEYS_def)
  show "\<forall>k. P k"
  proof
    fix k show "P k" using * by (cases k) simp_all
  qed
qed (simp add: RESOURCE_KEYS_def)

lemma resource_in_keys: "k \<in> set RESOURCE_KEYS"
  by (cases k) (simp_all add: RESOURCE_KEYS_def)

lemma within_caps_iff:
  "within_caps s i caps ks = list_all (\<lambda>k. usage s k + res i k \<le> caps k) ks"
  by (induction ks) (auto simp: not_less)

lemma script_can_host_eq: "script_can_host s i caps = can_host s i caps"
  by (simp add: script_can_host_def can_host_def within_caps_iff)

lemma can_host_iff:
  "can_host s i caps = (Servicio i \<notin> services s \<and> (\<forall>k. usage s k + res i k \<le> caps k))"
  by (simp add: can_host_def resource_all [symmetric])

section \<open>The packing loop\<close>

lemma first_fit_None: "(first_fit caps i ss = None) = (\<forall>s\<in>set ss. \<not> can_host s i caps)"
  by (induction ss) auto

lemma first_fit_Some:
  "first_fit caps i ss = Some ss' \<Longrightarrow>
     \<exists>pre s post. ss = pre @ s # post \<and> ss' = pre @ add_inst s i # post \<and> can_host s i caps"
proof (induction ss arbitrary: ss')
  case Nil
  then show ?case by simp
next
  case (Cons t ts)
  show ?case
  proof (cases "can_host t i caps")
    case True
    with Cons.prems have "ss' = add_inst t i # ts" by simp
    with True show ?thesis by (intro exI [of _ "[]"]) auto
  next
    case False
    with Cons.prems obtain r where r: "first_fit caps i ts = Some r" "ss' = t # r"
      by auto
    from Cons.IH [OF r(1)] obtain pre s post
      where "ts = pre @ s # post" "r = pre @ add_inst s i # post" "can_host s i caps"
      by blast
    with r(2) show ?thesis by (intro exI [of _ "t # pre"]) auto
  qed
qed

lemma place_cases:
  obtains (hit) pre s post where "ss = pre @ s # post"
      "place caps ss i = pre @ add_inst s i # post" "can_host s i caps"
  | (new) "place caps ss i = ss @ [new_server (length ss + 1) i]"
      "\<forall>s\<in>set ss. \<not> can_host s i caps"
proof (cases "first_fit caps i ss")
  case None
  have "place caps ss i = ss @ [new_server (length ss + 1) i]"
    by (simp add: place_def None)
  moreover from None have "\<forall>s\<in>set ss. \<not> can_host s i caps"
    by (simp add: first_fit_None)
  ultimately show ?thesis by (rule new)
next
  case (Some ss')
  from first_fit_Some [OF Some] Some show ?thesis using hit
    by (auto simp: place_def)
qed

lemma place_preserves:
  assumes "\<forall>s\<in>set ss. Q s"
    and "\<And>s. Q s \<Longrightarrow> can_host s i caps \<Longrightarrow> Q (add_inst s i)"
    and "\<And>n. Q (new_server n i)"
  shows "\<forall>s\<in>set (place caps ss i). Q s"
proof (cases rule: place_cases [of ss caps i])
  case (hit pre s post)
  from assms(1) hit(1) have "Q s" and rest: "\<forall>t\<in>set pre \<union> set post. Q t"
    by simp_all
  from assms(2) [OF \<open>Q s\<close> hit(3)] rest show ?thesis
    by (simp add: hit(2) ball_Un)
next
  case new
  with assms(1) assms(3) show ?thesis by simp
qed

lemma foldl_place_preserves:
  assumes "\<forall>s\<in>set ss. Q s"
    and "\<And>s i. i \<in> set xs \<Longrightarrow> Q s \<Longrightarrow> can_host s i caps \<Longrightarrow> Q (add_inst s i)"
    and "\<And>n i. i \<in> set xs \<Longrightarrow> Q (new_server n i)"
  shows "\<forall>s\<in>set (foldl (place caps) ss xs). Q s"
  using assms
proof (induction xs arbitrary: ss)
  case Nil
  then show ?case by simp
next
  case (Cons x xs)
  have x: "x \<in> set (x # xs)" by simp
  have "\<forall>s\<in>set (place caps ss x). Q s"
  proof (rule place_preserves [where Q = Q])
    show "\<forall>s\<in>set ss. Q s" by (rule Cons.prems(1))
    show "Q (add_inst s x)" if "Q s" "can_host s x caps" for s
      using Cons.prems(2) [OF x that] .
    show "Q (new_server n x)" for n
      using Cons.prems(3) [OF x] .
  qed
  moreover have "Q (add_inst s i)" if "i \<in> set xs" "Q s" "can_host s i caps" for s i
    using Cons.prems(2) [of i s] that by simp
  moreover have "Q (new_server n i)" if "i \<in> set xs" for n i
    using Cons.prems(3) [of i n] that by simp
  ultimately have "\<forall>s\<in>set (foldl (place caps) (place caps ss x) xs). Q s"
    by (rule Cons.IH)
  then show ?case by simp
qed

lemma place_mset:
  "mset (concat (map instances (place caps ss i))) = add_mset i (mset (concat (map instances ss)))"
  by (cases rule: place_cases [of ss caps i]) (simp_all add: add_inst_def new_server_def)

lemma foldl_place_mset:
  "mset (concat (map instances (foldl (place caps) ss xs)))
     = mset (concat (map instances ss)) + mset xs"
  by (induction xs arbitrary: ss) (simp_all add: place_mset)

lemma place_length:
  "length ss \<le> length (place caps ss i) \<and> length (place caps ss i) \<le> length ss + 1"
  by (cases rule: place_cases [of ss caps i]) simp_all

lemma foldl_place_length:
  "length ss \<le> length (foldl (place caps) ss xs)
   \<and> length (foldl (place caps) ss xs) \<le> length ss + length xs"
proof (induction xs arbitrary: ss)
  case Nil
  then show ?case by simp
next
  case (Cons x xs)
  from Cons.IH [of "place caps ss x"] place_length [of ss caps x]
  show ?case by simp
qed

section \<open>The sort keys and the sorted list\<close>

lemma key_tuple_Inr:
  "\<forall>r\<in>set ord. caps r \<noteq> 0 \<Longrightarrow> key_tuple caps ord x = Inr (norm_key caps ord x)"
  by (induction ord) (simp_all add: norm_key_def)


lemma keyed_Inr:
  "\<forall>r\<in>set ord. caps r \<noteq> 0 \<Longrightarrow>
     keyed caps ord xs = Inr (map (\<lambda>x. (norm_key caps ord x, x)) xs)"
  by (induction xs) (simp_all add: key_tuple_Inr)


lemma keyed_Nil: "keyed caps ord [] = Inr []"
  by simp

lemma keyed_snd: "keyed caps ord xs = Inr kxs \<Longrightarrow> map snd kxs = xs"
  by (induction xs arbitrary: kxs) (auto split: sum.splits)

lemma insort_key_decorated:
  "insort_key fst (f x, x) (map (\<lambda>y. (f y, y)) ys) = map (\<lambda>y. (f y, y)) (insort_key f x ys)"
  by (induction ys) simp_all

lemma sort_key_decorated:
  "sort_key fst (map (\<lambda>y. (f y, y)) ys) = map (\<lambda>y. (f y, y)) (sort_key f ys)"
  by (induction ys) (simp_all add: insort_key_decorated)

lemma py_sorted_decorated:
  "map snd (py_sorted_reverse fst (map (\<lambda>y. (f y, y)) ys)) = py_sorted_reverse f ys"
proof -
  have "map snd (map (\<lambda>y. (f y, y)) zs) = zs" for zs
    by (induction zs) simp_all
  then show ?thesis
    unfolding py_sorted_reverse_def rev_map sort_key_decorated by simp
qed

lemma mset_py_sorted: "mset (py_sorted_reverse f xs) = mset xs"
  by (simp add: py_sorted_reverse_def)

lemma set_py_sorted: "set (py_sorted_reverse f xs) = set xs"
  by (simp add: py_sorted_reverse_def)

lemma ffd_nonzero:
  "\<forall>r\<in>set ord. caps r \<noteq> 0 \<Longrightarrow>
     ffd insts caps ord
       = Inr (foldl (place caps) [] (py_sorted_reverse (norm_key caps ord) insts))"
  by (simp add: ffd_def keyed_Inr py_sorted_decorated)



lemma ffd_Inr:
  assumes "ffd insts caps ord = Inr plan"
  obtains ys where "mset ys = mset insts" "plan = foldl (place caps) [] ys"
proof -
  from assms obtain kxs where k: "keyed caps ord insts = Inr kxs"
    and p: "plan = foldl (place caps) [] (map snd (py_sorted_reverse fst kxs))"
    by (auto simp: ffd_def split: sum.splits)
  have "mset (map snd (py_sorted_reverse fst kxs)) = mset (map snd kxs)"
    by (simp add: mset_py_sorted)
  also have "\<dots> = mset insts" using keyed_snd [OF k] by simp
  finally show ?thesis using that p by blast
qed

section \<open>The packer of script.py packs as \<open>ffd\<close> does\<close>

lemma script_first_fit_eq: "script_first_fit caps i ss = first_fit caps i ss"
  by (induction ss) (simp_all add: script_can_host_eq)

lemma script_place_eq: "script_place caps = place caps"
  by (intro ext) (simp add: script_place_def place_def script_first_fit_eq)

lemma first_fit_decreasing_eq:
  "first_fit_decreasing insts caps
     = foldl (place caps) [] (py_sorted_reverse (\<lambda>x. [res x CPU, res x Red, res x Memoria]) insts)"
  by (simp add: first_fit_decreasing_def script_place_eq)

lemma first_fit_decreasing_packs:
  obtains ys where "mset ys = mset insts" "first_fit_decreasing insts caps = foldl (place caps) [] ys"
  using first_fit_decreasing_eq mset_py_sorted by blast

section \<open>What every packing preserves\<close>

lemma pack_within:
  assumes "\<forall>i\<in>set ys. \<forall>k. res i k \<le> caps k"
  shows "\<forall>s\<in>set (foldl (place caps) [] ys). \<forall>k. usage s k \<le> caps k"
proof (rule foldl_place_preserves [where Q = "\<lambda>s. \<forall>k. usage s k \<le> caps k"])
  show "\<forall>s\<in>set []. \<forall>k. usage s k \<le> caps k" by simp
  show "\<forall>k. usage (add_inst s i) k \<le> caps k" if "can_host s i caps" for s i
    using that by (simp add: can_host_iff add_inst_def)
  show "\<forall>k. usage (new_server n i) k \<le> caps k" if "i \<in> set ys" for n i
    using that assms by (simp add: new_server_def)
qed

lemma pack_services:
  "\<forall>s\<in>set (foldl (place caps) [] ys).
     services s = set (map Servicio (instances s)) \<and> distinct (map Servicio (instances s))"
proof (rule foldl_place_preserves
    [where Q = "\<lambda>s. services s = set (map Servicio (instances s))
                     \<and> distinct (map Servicio (instances s))"])
  show "\<forall>s\<in>set []. services s = set (map Servicio (instances s))
          \<and> distinct (map Servicio (instances s))" by simp
  show "services (add_inst s i) = set (map Servicio (instances (add_inst s i)))
          \<and> distinct (map Servicio (instances (add_inst s i)))"
    if "services s = set (map Servicio (instances s)) \<and> distinct (map Servicio (instances s))"
      and "can_host s i caps" for s i
    using that by (auto simp: can_host_iff add_inst_def)
  show "services (new_server n i) = set (map Servicio (instances (new_server n i)))
          \<and> distinct (map Servicio (instances (new_server n i)))" for n i
    by (simp add: new_server_def)
qed

lemma pack_usage:
  "\<forall>s\<in>set (foldl (place caps) [] ys). \<forall>k. usage s k = (\<Sum>i\<leftarrow>instances s. res i k)"
proof (rule foldl_place_preserves
    [where Q = "\<lambda>s. \<forall>k. usage s k = (\<Sum>i\<leftarrow>instances s. res i k)"])
  show "\<forall>s\<in>set []. \<forall>k. usage s k = (\<Sum>i\<leftarrow>instances s. res i k)" by simp
  show "\<forall>k. usage (add_inst s i) k = (\<Sum>j\<leftarrow>instances (add_inst s i). res j k)"
    if "\<forall>k. usage s k = (\<Sum>i\<leftarrow>instances s. res i k)" for s i
    using that by (simp add: add_inst_def)
  show "\<forall>k. usage (new_server n i) k = (\<Sum>j\<leftarrow>instances (new_server n i). res j k)" for n i
    by (simp add: new_server_def)
qed

lemma pack_mset: "mset (concat (map instances (foldl (place caps) [] ys))) = mset ys"
  by (simp add: foldl_place_mset)

lemma pack_length: "length (foldl (place caps) [] ys) \<le> length ys"
  using foldl_place_length [of "[]" caps ys] by simp

section \<open>The search returns one of the plans it tried\<close>

lemma keep_best_cases: "keep_best caps best plan = best \<or> keep_best caps best plan = Some plan"
  by (simp add: keep_best_def split: option.splits)

lemma keep_best_Some: "keep_best caps best plan \<noteq> None"
  by (simp add: keep_best_def split: option.splits)

lemma search_result:
  "search insts caps orders best = Inr (Some p)
     \<Longrightarrow> best = Some p \<or> (\<exists>order\<in>set orders. ffd insts caps order = Inr p)"
proof (induction orders arbitrary: best)
  case Nil
  then show ?case by simp
next
  case (Cons order orders)
  from Cons.prems obtain plan where plan: "ffd insts caps order = Inr plan"
    and rest: "search insts caps orders (keep_best caps best plan) = Inr (Some p)"
    by (auto split: sum.splits)
  from Cons.IH [OF rest] keep_best_cases [of caps best plan] plan
  show ?case by auto
qed

lemma best_plan_is_ffd:
  assumes "best_plan sample insts caps = Inr (Some p)"
  obtains order where "ffd insts caps order = Inr p"
proof -
  from assms obtain orders where "search insts caps orders None = Inr (Some p)"
    by (auto simp: best_plan_def Let_def simp del: search.simps split: sum.splits)
  from search_result [OF this] that show ?thesis by auto
qed

lemma search_total:
  assumes "\<forall>order\<in>set orders. \<exists>p. ffd insts caps order = Inr p"
  shows "\<exists>r. search insts caps orders best = Inr r \<and> (r = None \<longrightarrow> best = None \<and> orders = [])"
  using assms
proof (induction orders arbitrary: best)
  case Nil
  then show ?case by simp
next
  case (Cons order orders)
  then obtain plan where plan: "ffd insts caps order = Inr plan" by auto
  from Cons.prems have "\<forall>order\<in>set orders. \<exists>p. ffd insts caps order = Inr p" by simp
  from Cons.IH [OF this, of "keep_best caps best plan"] plan keep_best_Some [of caps best plan]
  show ?case by auto
qed

lemma ffd_total:
  assumes "\<forall>k. caps k \<noteq> 0"
  shows "\<exists>p. ffd insts caps order = Inr p"
  using assms by (simp add: ffd_nonzero)

lemma criticity_Inr:
  "\<forall>k. caps k \<noteq> 0 \<Longrightarrow> criticity insts caps = Inr (\<lambda>k. demand insts k / caps k)"
  by (simp add: criticity_def list_ex_iff)

lemma criticity_Inl:
  "caps k = 0 \<Longrightarrow> criticity insts caps = Inl ZeroDivisionError"
  using resource_in_keys [of k] by (auto simp: criticity_def list_ex_iff)

lemma best_plan_nonzero:
  assumes "\<forall>k. caps k \<noteq> 0"
  shows "best_plan sample insts caps
           = search insts caps
               (crit_order_of insts caps
                  # sample (permutations RESOURCE_KEYS) (min 100 (fact (length RESOURCE_KEYS))))
               None"
  using assms by (simp add: best_plan_def criticity_Inr crit_order_of_def)

lemma best_plan_total:
  assumes "\<forall>k. caps k \<noteq> 0"
  shows "\<exists>p. best_plan sample insts caps = Inr (Some p)"
proof -
  let ?orders = "crit_order_of insts caps
       # sample (permutations RESOURCE_KEYS) (min 100 (fact (length RESOURCE_KEYS)))"
  have "\<forall>order\<in>set ?orders. \<exists>p. ffd insts caps order = Inr p"
    using ffd_total [OF assms] by blast
  from search_total [OF this, of None] obtain r
    where "search insts caps ?orders None = Inr r" "r \<noteq> None"
    by blast
  then show ?thesis by (auto simp: best_plan_nonzero [OF assms])
qed

lemma best_plan_zero:
  "caps k = 0 \<Longrightarrow> best_plan sample insts caps = Inl ZeroDivisionError"
  by (simp add: best_plan_def criticity_Inl)

section \<open>The scenarios of the specification\<close>

lemma place_empty: "place caps [] x = [new_server 1 x]"
  by (simp add: place_def)

lemma py_sorted_single: "py_sorted_reverse f [x] = [x]"
  by (simp add: py_sorted_reverse_def)

lemma ffd_single: "\<forall>k. caps k \<noteq> 0 \<Longrightarrow> ffd [x] caps ord = Inr [new_server 1 x]"
  by (simp add: ffd_nonzero py_sorted_single place_empty)

lemma keep_best_same: "keep_best caps (Some p) p = Some p"
  by (simp add: keep_best_def)

lemma search_all_same:
  assumes "\<forall>order\<in>set orders. ffd insts caps order = Inr p"
  shows "search insts caps orders (Some p) = Inr (Some p)"
  using assms by (induction orders) (simp_all add: keep_best_same)

lemma best_plan_all_same:
  assumes "\<forall>k. caps k \<noteq> 0" and "\<And>order. ffd insts caps order = Inr p"
  shows "best_plan sample insts caps = Inr (Some p)"
proof -
  have "search insts caps orders (Some p) = Inr (Some p)" for orders
    by (rule search_all_same) (simp add: assms(2))
  then show ?thesis
    by (simp add: best_plan_nonzero [OF assms(1)] assms(2) keep_best_def)
qed

lemma caps_A_nonzero: "\<forall>k. caps_A k \<noteq> 0"
  by (simp add: caps_A_def vec_def split: resource.split)

lemma str_nat_1: "str_nat 1 = ''1''"
  by (simp add: str_nat.simps digit_def)

lemma usage_A: "(\<lambda>k. res svcA k + res svcB k) = vec 2 4 100 20 100"
  by (rule ext) (simp add: svcA_def svcB_def replica_def vec_def split: resource.split)

lemma can_host_A: "can_host (new_server 1 svcA) svcB caps_A"
  by (simp add: can_host_def new_server_def svcA_def svcB_def replica_def caps_A_def
      RESOURCE_KEYS_def vec_def)

lemma add_inst_A: "[add_inst (new_server 1 svcA) svcB] = plan_A"
proof -
  have "Servicio svcA = ''svcA''" "Servicio svcB = ''svcB''"
    by (simp_all add: svcA_def svcB_def replica_def)
  then show ?thesis
    by (simp add: add_inst_def new_server_def plan_A_def usage_A str_nat_1 insert_commute
        del: One_nat_def)
qed

lemma scenario_A_place: "place caps_A [new_server 1 svcA] svcB = plan_A"
  using can_host_A by (simp add: place_def add_inst_A del: One_nat_def)

lemma scenario_A_ffd: "ffd [svcA, svcB] caps_A ord = Inr plan_A"
proof -
  have "norm_key caps_A ord svcB = norm_key caps_A ord svcA"
    by (simp add: norm_key_def svcA_def svcB_def replica_def)
  then have "py_sorted_reverse (norm_key caps_A ord) [svcA, svcB] = [svcA, svcB]"
    by (simp add: py_sorted_reverse_def)
  then show ?thesis
    by (simp add: ffd_nonzero caps_A_nonzero place_empty scenario_A_place del: One_nat_def)
qed

lemma scenario_A_best: "best_plan sample [svcA, svcB] caps_A = Inr (Some plan_A)"
  by (rule best_plan_all_same) (simp_all add: caps_A_nonzero scenario_A_ffd)

lemma scenario_C_best: "best_plan sample [svc_big] caps_A = Inr (Some [new_server 1 svc_big])"
  by (rule best_plan_all_same) (simp_all add: caps_A_nonzero ffd_single)

section \<open>Feasibility, conservation and anti-affinity\<close>


lemma packed_conserves: "mset ys = mset insts \<Longrightarrow>
    mset (concat (map instances (foldl (place caps) [] ys))) = mset insts"
  by (simp add: pack_mset)

text \<open>
  Claim C10.  Every packing run conserves its input: the concatenation of the servers'
  lists of assigned replicas is a permutation of the input list, so every replica is on
  exactly one server, none dropped and none duplicated.  This holds for \<open>ffd\<close> whenever
  it returns a plan, for \<open>first_fit_decreasing\<close> of the first script, and for the plan
  that \<open>best_plan\<close> returns.
\<close>

theorem packing_conserves_replicas:
  "(ffd insts caps crit_order = Inr plan \<longrightarrow> mset (concat (map instances plan)) = mset insts)
   \<and> mset (concat (map instances (first_fit_decreasing insts caps))) = mset insts
   \<and> (best_plan sample insts caps = Inr (Some best)
        \<longrightarrow> mset (concat (map instances best)) = mset insts)"
proof (intro conjI impI)
  assume "ffd insts caps crit_order = Inr plan"
  then show "mset (concat (map instances plan)) = mset insts"
    by (elim ffd_Inr) (simp add: packed_conserves)
next
  show "mset (concat (map instances (first_fit_decreasing insts caps))) = mset insts"
    by (rule first_fit_decreasing_packs [of insts caps]) (simp add: packed_conserves)
next
  assume "best_plan sample insts caps = Inr (Some best)"
  then obtain order where "ffd insts caps order = Inr best"
    by (rule best_plan_is_ffd)
  then show "mset (concat (map instances best)) = mset insts"
    by (elim ffd_Inr) (simp add: packed_conserves)
qed

theorem packing_conserves_replicas_witness:
  "ffd [svcA, svcB] caps_A RESOURCE_KEYS = Inr plan_A
   \<and> best_plan first_k [svcA, svcB] caps_A = Inr (Some plan_A)
   \<and> mset (concat (map instances plan_A)) = mset [svcA, svcB]
   \<and> mset (concat (map instances (first_fit_decreasing [svcA, svcB] caps_A))) = mset [svcA, svcB]"
  using packing_conserves_replicas
    [of "[svcA, svcB]" caps_A RESOURCE_KEYS plan_A first_k plan_A]
  by (simp add: scenario_A_ffd scenario_A_best)

lemma anti_affine_iff:
  "anti_affine s = (distinct (map Servicio (instances s))
                    \<and> services s = set (map Servicio (instances s)))"
proof -
  have "card (set (map Servicio (instances s))) = length (instances s)"
    if "distinct (map Servicio (instances s))"
    using distinct_card [OF that] by simp
  then show ?thesis by (auto simp: anti_affine_def)
qed

lemma packed_anti_affine: "list_all anti_affine (foldl (place caps) [] ys)"
  using pack_services [of caps ys] by (simp add: list_all_iff anti_affine_iff)

text \<open>
  Claim C2.  In every plan produced by a packing run, no two replicas assigned to one
  server have the same service name, and the server's set of hosted services holds
  exactly one name per assigned replica.  This holds for \<open>ffd\<close>, for
  \<open>first_fit_decreasing\<close> and for the plan that \<open>best_plan\<close> returns.
\<close>

theorem one_replica_per_service:
  "(ffd insts caps crit_order = Inr plan \<longrightarrow> list_all anti_affine plan)
   \<and> list_all anti_affine (first_fit_decreasing insts caps)
   \<and> (best_plan sample insts caps = Inr (Some best) \<longrightarrow> list_all anti_affine best)"
proof (intro conjI impI)
  assume "ffd insts caps crit_order = Inr plan"
  then show "list_all anti_affine plan"
    by (elim ffd_Inr) (simp add: packed_anti_affine)
next
  show "list_all anti_affine (first_fit_decreasing insts caps)"
    by (simp add: first_fit_decreasing_eq packed_anti_affine)
next
  assume "best_plan sample insts caps = Inr (Some best)"
  then obtain order where "ffd insts caps order = Inr best"
    by (rule best_plan_is_ffd)
  then show "list_all anti_affine best"
    by (elim ffd_Inr) (simp add: packed_anti_affine)
qed

lemma scenario_B_ffd:
  "ffd [svcA, svcA] caps_A ord = Inr [new_server 1 svcA, new_server 2 svcA]"
proof -
  have "py_sorted_reverse (norm_key caps_A ord) [svcA, svcA] = [svcA, svcA]"
    by (simp add: py_sorted_reverse_def)
  moreover have "\<not> can_host (new_server 1 svcA) svcA caps_A"
    by (simp add: can_host_def new_server_def)
  ultimately show ?thesis
    by (simp add: ffd_nonzero caps_A_nonzero place_def del: One_nat_def)
qed

theorem one_replica_per_service_witness:
  "ffd [svcA, svcA] caps_A RESOURCE_KEYS = Inr [new_server 1 svcA, new_server 2 svcA]
   \<and> list_all anti_affine [new_server 1 svcA, new_server 2 svcA]
   \<and> best_plan first_k [svcA, svcB] caps_A = Inr (Some plan_A)
   \<and> list_all anti_affine plan_A"
  using one_replica_per_service
    [of "[svcA, svcA]" caps_A RESOURCE_KEYS "[new_server 1 svcA, new_server 2 svcA]"]
    one_replica_per_service [of "[svcA, svcB]" caps_A _ _ first_k plan_A]
  by (simp add: scenario_B_ffd scenario_A_best del: One_nat_def)

section \<open>The capacity invariant and oversized replicas\<close>

lemma packed_within:
  assumes "mset ys = mset insts" and "list_all (fits caps) insts"
  shows "list_all (within_capacity caps) (foldl (place caps) [] ys)"
proof -
  from assms(1) have "set ys = set insts" by (rule mset_eq_setD)
  with assms(2) have "\<forall>i\<in>set ys. \<forall>k. res i k \<le> caps k"
    by (simp add: list_all_iff fits_def)
  from pack_within [OF this] show ?thesis
    by (simp add: list_all_iff within_capacity_def)
qed

text \<open>
  Claim C1, as amended.  When every replica of the input, taken alone, is within the
  capacity in every dimension, every server of a plan returned by \<open>ffd\<close> or by
  \<open>best_plan\<close> has a usage within the capacity in every dimension.  Without that
  condition the claim fails: a replica that exceeds the capacity opens a server of its
  own, and the \<open>else\<close> branch that opens it does not look at the capacity.
\<close>

theorem capacity_invariant_when_replicas_fit:
  assumes "list_all (fits caps) insts"
  shows "(ffd insts caps crit_order = Inr plan \<longrightarrow> list_all (within_capacity caps) plan)
         \<and> (best_plan sample insts caps = Inr (Some best)
              \<longrightarrow> list_all (within_capacity caps) best)"
proof (intro conjI impI)
  assume "ffd insts caps crit_order = Inr plan"
  then show "list_all (within_capacity caps) plan"
    by (elim ffd_Inr) (simp add: packed_within assms)
next
  assume "best_plan sample insts caps = Inr (Some best)"
  then obtain order where "ffd insts caps order = Inr best"
    by (rule best_plan_is_ffd)
  then show "list_all (within_capacity caps) best"
    by (elim ffd_Inr) (simp add: packed_within assms)
qed

lemma fits_A: "list_all (fits caps_A) [svcA, svcB]"
  by (simp add: fits_def caps_A_def svcA_def svcB_def replica_def vec_def split: resource.split)

theorem capacity_invariant_when_replicas_fit_witness:
  "list_all (fits caps_A) [svcA, svcB]
   \<and> ffd [svcA, svcB] caps_A RESOURCE_KEYS = Inr plan_A
   \<and> best_plan first_k [svcA, svcB] caps_A = Inr (Some plan_A)
   \<and> list_all (within_capacity caps_A) plan_A"
  using capacity_invariant_when_replicas_fit
    [OF fits_A, of RESOURCE_KEYS plan_A first_k plan_A] fits_A
  by (simp add: scenario_A_ffd scenario_A_best)

theorem capacity_invariant_counterexample:
  "best_plan first_k [svc_big] caps_A = Inr (Some [new_server 1 svc_big])
   \<and> usage (new_server 1 svc_big) CPU = 3 \<and> caps_A CPU = 2
   \<and> \<not> list_all (within_capacity caps_A) [new_server 1 svc_big]"
proof -
  have "usage (new_server 1 svc_big) CPU = 3" "caps_A CPU = 2"
    by (simp_all add: new_server_def svc_big_def replica_def caps_A_def vec_def)
  moreover from this have "\<not> within_capacity caps_A (new_server 1 svc_big)"
    by (auto simp: within_capacity_def intro!: exI [of _ CPU] simp del: One_nat_def)
  ultimately show ?thesis
    by (simp add: scenario_C_best del: One_nat_def)
qed

lemma sum_list_ge_member:
  fixes f :: "'a \<Rightarrow> real"
  assumes "x \<in> set xs" and "\<forall>y\<in>set xs. 0 \<le> f y"
  shows "f x \<le> sum_list (map f xs)"
  using assms
proof (induction xs)
  case Nil
  then show ?case by simp
next
  case (Cons y ys)
  have nn: "0 \<le> sum_list (map f ys)"
    using Cons.prems(2) by (intro sum_list_nonneg) auto
  show ?case
  proof (cases "x = y")
    case True
    with nn show ?thesis by simp
  next
    case False
    with Cons.prems have "x \<in> set ys" "\<forall>y\<in>set ys. 0 \<le> f y" by auto
    then have "f x \<le> sum_list (map f ys)" by (rule Cons.IH)
    moreover from Cons.prems(2) have "0 \<le> f y" by simp
    ultimately show ?thesis by simp
  qed
qed

lemma packed_oversized:
  assumes ys: "mset ys = mset insts" and x: "x \<in> set insts" and over: "caps k < res x k"
    and nonneg: "list_all (\<lambda>i. \<forall>k. 0 \<le> res i k) insts"
  shows "length (foldl (place caps) [] ys) \<le> length insts
         \<and> (\<exists>s\<in>set (foldl (place caps) [] ys). x \<in> set (instances s) \<and> caps k < usage s k)"
proof -
  let ?plan = "foldl (place caps) [] ys"
  have all: "mset (concat (map instances ?plan)) = mset insts"
    using ys by (simp add: pack_mset)
  then have sets: "set (concat (map instances ?plan)) = set insts"
    by (rule mset_eq_setD)
  with x obtain s where s: "s \<in> set ?plan" "x \<in> set (instances s)"
    by auto
  from sets s(1) have "set (instances s) \<subseteq> set insts" by auto
  with nonneg have "\<forall>i\<in>set (instances s). 0 \<le> res i k"
    by (auto simp: list_all_iff)
  from sum_list_ge_member [OF s(2) this] pack_usage [of caps ys] s(1)
  have "res x k \<le> usage s k" by simp
  with over have "caps k < usage s k" by simp
  moreover have "length ?plan \<le> length insts"
    using pack_length [of caps ys] mset_eq_length [OF ys] by simp
  ultimately show ?thesis using s by blast
qed

text \<open>
  Claim C3, as amended.  Neither script has an \<open>UnplaceableReplicaError\<close> or any check
  of a replica against the capacity before the loop.  When a replica's demand exceeds
  the capacity in some dimension (all capacities non-zero, all demands non-negative),
  \<open>ffd\<close>, \<open>best_plan\<close> and \<open>first_fit_decreasing\<close> raise nothing: each returns a plan
  with at most one server per replica, and the replica is assigned to a server of that
  plan whose usage exceeds the capacity in that dimension.
\<close>

theorem oversized_replica_is_packed:
  assumes "\<forall>k. caps k \<noteq> 0" and "x \<in> set insts" and "caps k < res x k"
    and "list_all (\<lambda>i. \<forall>k. 0 \<le> res i k) insts"
  shows "(\<exists>plan. ffd insts caps crit_order = Inr plan \<and> length plan \<le> length insts
           \<and> (\<exists>s\<in>set plan. x \<in> set (instances s) \<and> caps k < usage s k))
       \<and> (\<exists>best. best_plan sample insts caps = Inr (Some best) \<and> length best \<le> length insts
           \<and> (\<exists>s\<in>set best. x \<in> set (instances s) \<and> caps k < usage s k))
       \<and> (length (first_fit_decreasing insts caps) \<le> length insts
           \<and> (\<exists>s\<in>set (first_fit_decreasing insts caps).
                 x \<in> set (instances s) \<and> caps k < usage s k))"
proof (intro conjI)
  have packed: "length plan \<le> length insts
      \<and> (\<exists>s\<in>set plan. x \<in> set (instances s) \<and> caps k < usage s k)"
    if "ffd insts caps order = Inr plan" for order plan
  proof -
    from that obtain ys where ys: "mset ys = mset insts" "plan = foldl (place caps) [] ys"
      by (rule ffd_Inr)
    from packed_oversized [where caps = caps and k = k, OF ys(1) assms(2) assms(3) assms(4)] ys(2)
    show ?thesis by simp
  qed
  from ffd_total [OF assms(1)] obtain plan where "ffd insts caps crit_order = Inr plan"
    by blast
  with packed show "\<exists>plan. ffd insts caps crit_order = Inr plan \<and> length plan \<le> length insts
      \<and> (\<exists>s\<in>set plan. x \<in> set (instances s) \<and> caps k < usage s k)"
    by blast
  from best_plan_total [OF assms(1)] obtain best
    where best: "best_plan sample insts caps = Inr (Some best)"
    by blast
  then obtain order where "ffd insts caps order = Inr best"
    by (rule best_plan_is_ffd)
  with packed best
  show "\<exists>best. best_plan sample insts caps = Inr (Some best) \<and> length best \<le> length insts
      \<and> (\<exists>s\<in>set best. x \<in> set (instances s) \<and> caps k < usage s k)"
    by blast
  obtain ys where "mset ys = mset insts"
    "first_fit_decreasing insts caps = foldl (place caps) [] ys"
    by (rule first_fit_decreasing_packs)
  with packed_oversized [where caps = caps and k = k, OF _ assms(2) assms(3) assms(4), of ys]
  show "length (first_fit_decreasing insts caps) \<le> length insts"
    and "\<exists>s\<in>set (first_fit_decreasing insts caps). x \<in> set (instances s) \<and> caps k < usage s k"
    by simp_all
qed

theorem oversized_replica_is_packed_witness:
  "caps_A CPU < res svc_big CPU
   \<and> (\<exists>plan. ffd [svc_big] caps_A RESOURCE_KEYS = Inr plan \<and> length plan \<le> length [svc_big]
        \<and> (\<exists>s\<in>set plan. svc_big \<in> set (instances s) \<and> caps_A CPU < usage s CPU))
   \<and> (\<exists>best. best_plan first_k [svc_big] caps_A = Inr (Some best)
        \<and> length best \<le> length [svc_big]
        \<and> (\<exists>s\<in>set best. svc_big \<in> set (instances s) \<and> caps_A CPU < usage s CPU))"
proof -
  have over: "caps_A CPU < res svc_big CPU"
    by (simp add: caps_A_def svc_big_def replica_def vec_def)
  have nonneg: "list_all (\<lambda>i. \<forall>k. 0 \<le> res i k) [svc_big]"
    by (simp add: svc_big_def replica_def vec_def split: resource.split)
  have x: "svc_big \<in> set [svc_big]" by simp
  from oversized_replica_is_packed [OF caps_A_nonzero x over nonneg, of RESOURCE_KEYS first_k] over
  show ?thesis by blast
qed

theorem unplaceable_replica_counterexample:
  "caps_A CPU < res svc_big CPU
   \<and> ffd [svc_big] caps_A RESOURCE_KEYS = Inr [new_server 1 svc_big]
   \<and> first_fit_decreasing [svc_big] caps_A = [new_server 1 svc_big]
   \<and> \<not> isl (best_plan first_k [svc_big] caps_A)"
proof -
  have "caps_A CPU < res svc_big CPU"
    by (simp add: caps_A_def svc_big_def replica_def vec_def)
  moreover have "first_fit_decreasing [svc_big] caps_A = [new_server 1 svc_big]"
    by (simp add: first_fit_decreasing_eq py_sorted_single place_empty del: One_nat_def)
  ultimately show ?thesis
    by (simp add: ffd_single caps_A_nonzero scenario_C_best del: One_nat_def)
qed

section \<open>The order in which replicas are assigned\<close>






lemma caps_6_nonzero: "\<forall>k. caps_6 k \<noteq> 0"
  by (simp add: caps_6_def vec_def split: resource.split)



section \<open>The tie-break and degenerate capacities\<close>





text \<open>
  Claim C7, as amended.  \<open>best_plan\<close> has no \<open>InvalidCapacityError\<close> and does not look
  at the sign of a capacity.  When the capacity is zero in some dimension, it stops
  before any packing with the \<open>ZeroDivisionError\<close> of the division that computes the
  criticality, whatever the demands are and also for an empty replica list.  When no
  capacity is zero, negative ones included, nothing is rejected: a plan is returned.
\<close>

theorem zero_capacity_raises_zero_division:
  "(caps k = 0 \<longrightarrow> best_plan sample insts caps = Inl ZeroDivisionError)
   \<and> ((\<forall>k. caps k \<noteq> 0) \<longrightarrow> (\<exists>plan. best_plan sample insts caps = Inr (Some plan)))"
  by (simp add: best_plan_zero best_plan_total)

lemma caps_neg_nonzero: "\<forall>k. caps_neg k \<noteq> 0"
  by (simp add: caps_neg_def vec_def split: resource.split)

theorem zero_capacity_raises_zero_division_witness:
  "caps_zero CPU = 0
   \<and> best_plan first_k [] caps_zero = Inl ZeroDivisionError
   \<and> best_plan first_k [svcA] caps_zero = Inl ZeroDivisionError
   \<and> (\<exists>plan. best_plan first_k [svcA] caps_neg = Inr (Some plan))"
proof -
  have z: "caps_zero CPU = 0" by (simp add: caps_zero_def vec_def)
  from zero_capacity_raises_zero_division [of caps_zero CPU first_k "[]"]
    zero_capacity_raises_zero_division [of caps_zero CPU first_k "[svcA]"]
    zero_capacity_raises_zero_division [of caps_neg CPU first_k "[svcA]"]
    z caps_neg_nonzero
  show ?thesis by simp
qed

theorem degenerate_capacity_counterexample:
  "caps_neg CPU < 0 \<and> 0 < res svcA CPU
   \<and> best_plan first_k [svcA] caps_neg = Inr (Some [new_server 1 svcA])"
proof -
  have "caps_neg CPU < 0" "0 < res svcA CPU"
    by (simp_all add: caps_neg_def svcA_def replica_def vec_def)
  moreover have "best_plan first_k [svcA] caps_neg = Inr (Some [new_server 1 svcA])"
    by (rule best_plan_all_same) (simp_all add: caps_neg_nonzero ffd_single)
  ultimately show ?thesis by simp
qed

section \<open>Determinism\<close>















section \<open>Appending a replica\<close>

lemma norm_key_mono:
  assumes "\<forall>r\<in>set ord. 0 < caps r" and "\<forall>k. res x k \<le> res y k"
  shows "norm_key caps ord x \<le> norm_key caps ord y"
  using assms(1)
proof (induction ord)
  case Nil
  show ?case by (simp add: norm_key_def)
next
  case (Cons r rs)
  then have pos: "0 < caps r" and rest: "norm_key caps rs x \<le> norm_key caps rs y"
    by simp_all
  from assms(2) pos have "res x r / caps r \<le> res y r / caps r"
    by (simp add: divide_right_mono)
  with rest show ?case
    by (auto simp: norm_key_def)
qed

lemma py_sorted_append_least:
  assumes "\<forall>y\<in>set ys. f x \<le> f y"
  shows "py_sorted_reverse f (ys @ [x]) = py_sorted_reverse f ys @ [x]"
proof -
  have "insort_key f x (sort_key f (rev ys)) = x # sort_key f (rev ys)"
    by (rule insort_is_Cons) (simp add: assms)
  then show ?thesis by (simp add: py_sorted_reverse_def)
qed

lemma ffd_append_least:
  assumes "\<forall>k. 0 < caps k" and "\<forall>y\<in>set insts. \<forall>k. res x k \<le> res y k"
  shows "\<exists>p. ffd insts caps ord = Inr p \<and> ffd (insts @ [x]) caps ord = Inr (place caps p x)"
proof -
  from assms(1) have nz: "\<forall>r\<in>set ord. caps r \<noteq> 0" and pos: "\<forall>r\<in>set ord. 0 < caps r"
    by (simp_all add: less_imp_neq [THEN not_sym])
  have "\<forall>y\<in>set insts. norm_key caps ord x \<le> norm_key caps ord y"
    using assms(2) by (auto intro: norm_key_mono [OF pos])
  then have "py_sorted_reverse (norm_key caps ord) (insts @ [x])
      = py_sorted_reverse (norm_key caps ord) insts @ [x]"
    by (rule py_sorted_append_least)
  then show ?thesis by (simp add: ffd_nonzero [OF nz])
qed

lemma keep_best_length:
  "map_option length (keep_best caps best plan)
     = Some (case best of None \<Rightarrow> length plan | Some b \<Rightarrow> min (length b) (length plan))"
  by (simp add: keep_best_def split: option.splits)

lemma search_monotone:
  assumes "\<And>order. \<exists>p p'. ffd insts caps order = Inr p \<and> ffd insts' caps order = Inr p'
                              \<and> length p \<le> length p'"
    and "rel_option (\<lambda>b b'. length b \<le> length b') best best'"
    and "search insts caps orders best = Inr (Some r)"
    and "search insts' caps orders best' = Inr (Some r')"
  shows "length r \<le> length r'"
  using assms(2-4)
proof (induction orders arbitrary: best best')
  case Nil
  then show ?case by simp
next
  case (Cons order orders)
  from assms(1) [of order] obtain p p'
    where p: "ffd insts caps order = Inr p" "ffd insts' caps order = Inr p'"
      "length p \<le> length p'"
    by blast
  from keep_best_length [of caps best p] keep_best_length [of caps best' p'] p(3) Cons.prems(1)
  have "rel_option (\<lambda>b b'. length b \<le> length b') (keep_best caps best p) (keep_best caps best' p')"
    by (cases best; cases best'; cases "keep_best caps best p"; cases "keep_best caps best' p'")
      auto
  from Cons.IH [OF this] Cons.prems(2,3) p(1,2) show ?case by simp
qed

lemma scenario_B_best:
  "best_plan sample [svcA, svcA] caps_A = Inr (Some [new_server 1 svcA, new_server 2 svcA])"
  by (rule best_plan_all_same) (simp_all add: caps_A_nonzero scenario_B_ffd)

lemma scenario_single_best:
  "best_plan sample [svcA] caps_A = Inr (Some [new_server 1 svcA])"
  by (rule best_plan_all_same) (simp_all add: caps_A_nonzero ffd_single)

lemma caps_A_positive: "\<forall>k. 0 < caps_A k"
  by (simp add: caps_A_def vec_def split: resource.split)

lemma crit_order_A:
  "crit_order_of ([svcA] @ [svcA]) caps_A = crit_order_of [svcA] caps_A"
  by (simp add: crit_order_of_def py_sorted_reverse_def demand_def RESOURCE_KEYS_def
      caps_A_def svcA_def replica_def vec_def)

text \<open>
  Claim C9, as amended.  Appending a replica can lower the number of servers of the
  returned plan.  It cannot when the capacities are positive, the appended replica is
  in no dimension larger than any replica of the list, and the canonical ordering of the
  dimensions is the same for both lists: then the plan for the longer list has at least
  as many servers, the sample of orderings being the same in both calls.
\<close>

theorem appending_a_least_replica_is_monotone:
  assumes "\<forall>k. 0 < caps k"
    and "\<forall>y\<in>set insts. \<forall>k. res x k \<le> res y k"
    and "crit_order_of (insts @ [x]) caps = crit_order_of insts caps"
    and "best_plan sample insts caps = Inr (Some plan)"
    and "best_plan sample (insts @ [x]) caps = Inr (Some plan')"
  shows "length plan \<le> length plan'"
proof -
  from assms(1) have nz: "\<forall>k. caps k \<noteq> 0"
    by (simp add: less_imp_neq [THEN not_sym])
  let ?orders = "crit_order_of insts caps
       # sample (permutations RESOURCE_KEYS) (min 100 (fact (length RESOURCE_KEYS)))"
  have a: "search insts caps ?orders None = Inr (Some plan)"
    using assms(4) by (simp only: best_plan_nonzero [OF nz])
  have b: "search (insts @ [x]) caps ?orders None = Inr (Some plan')"
    using assms(5) by (simp only: best_plan_nonzero [OF nz] assms(3))
  have step: "\<exists>p p'. ffd insts caps order = Inr p \<and> ffd (insts @ [x]) caps order = Inr p'
                 \<and> length p \<le> length p'" for order
    using ffd_append_least [OF assms(1,2), of order] place_length [of _ caps x] by auto
  show ?thesis
    by (rule search_monotone [OF step _ a b]) simp
qed

theorem appending_a_least_replica_is_monotone_witness:
  "best_plan first_k [svcA] caps_A = Inr (Some [new_server 1 svcA])
   \<and> best_plan first_k ([svcA] @ [svcA]) caps_A = Inr (Some [new_server 1 svcA, new_server 2 svcA])
   \<and> crit_order_of ([svcA] @ [svcA]) caps_A = crit_order_of [svcA] caps_A
   \<and> length [new_server 1 svcA] \<le> length [new_server 1 svcA, new_server 2 svcA]"
proof -
  have small: "\<forall>y\<in>set [svcA]. \<forall>k. res svcA k \<le> res y k" by simp
  have one: "best_plan first_k [svcA] caps_A = Inr (Some [new_server 1 svcA])"
    by (rule scenario_single_best)
  have two: "best_plan first_k ([svcA] @ [svcA]) caps_A
      = Inr (Some [new_server 1 svcA, new_server 2 svcA])"
    using scenario_B_best [of first_k] by simp
  from appending_a_least_replica_is_monotone [OF caps_A_positive small crit_order_A one two]
    one two crit_order_A
  show ?thesis by simp
qed

text \<open>
  The failure of claim C9 as stated.  Under every one of the 120 orderings the four
  replicas are packed into three servers, while with the fifth appended the orderings
  that put \<open>Memoria\<close> before \<open>CPU\<close> pack all five into two.  A sample of 100 different
  orderings contains one of those, there being only 60 others, so the count drops from
  three to two whatever the generator draws.
\<close>

lemma four_all_orders:
  "list_all (\<lambda>order. map_sum id length (ffd four caps_6 order) = Inr 3)
     (permutations RESOURCE_KEYS)"
  by code_simp

lemma five_all_orders:
  "list_all (\<lambda>order. map_sum id length (ffd (four @ [fifth]) caps_6 order)
                       = Inr (if precedes Memoria CPU order then 2 else 3))
     (permutations RESOURCE_KEYS)"
  by code_simp

lemma permutations_keys:
  "length (permutations RESOURCE_KEYS) = 120"
  "distinct (permutations RESOURCE_KEYS)"
  "length (filter (\<lambda>order. \<not> precedes Memoria CPU order) (permutations RESOURCE_KEYS)) = 60"
  by code_simp+

lemma crit_orders_are_permutations:
  "crit_order_of four caps_6 \<in> set (permutations RESOURCE_KEYS)"
  "crit_order_of (four @ [fifth]) caps_6 \<in> set (permutations RESOURCE_KEYS)"
  by code_simp+

lemma search_length_lower:
  assumes "\<forall>order\<in>set orders. \<exists>p. ffd insts caps order = Inr p \<and> n \<le> length p"
    and "\<forall>b. best = Some b \<longrightarrow> n \<le> length b"
    and "search insts caps orders best = Inr (Some r)"
  shows "n \<le> length r"
  using assms
proof (induction orders arbitrary: best)
  case Nil
  then show ?case by simp
next
  case (Cons order orders)
  from Cons.prems(1) obtain p where p: "ffd insts caps order = Inr p" "n \<le> length p"
    by auto
  from Cons.prems(1)
  have "\<forall>order\<in>set orders. \<exists>p. ffd insts caps order = Inr p \<and> n \<le> length p"
    by simp
  moreover from keep_best_length [of caps best p] p(2) Cons.prems(2)
  have "\<forall>b. keep_best caps best p = Some b \<longrightarrow> n \<le> length b"
    by (cases best) auto
  moreover from Cons.prems(3) p(1)
  have "search insts caps orders (keep_best caps best p) = Inr (Some r)"
    by simp
  ultimately show ?case by (rule Cons.IH)
qed

lemma search_length_upper:
  assumes "\<forall>order\<in>set orders. \<exists>p. ffd insts caps order = Inr p"
    and "(\<exists>b. best = Some b \<and> length b \<le> n)
         \<or> (\<exists>order\<in>set orders. \<exists>p. ffd insts caps order = Inr p \<and> length p \<le> n)"
    and "search insts caps orders best = Inr (Some r)"
  shows "length r \<le> n"
  using assms
proof (induction orders arbitrary: best)
  case Nil
  then show ?case by auto
next
  case (Cons order orders)
  from Cons.prems(1) obtain p where p: "ffd insts caps order = Inr p"
    by auto
  from Cons.prems(1) have all: "\<forall>order\<in>set orders. \<exists>p. ffd insts caps order = Inr p"
    by simp
  from Cons.prems(3) p
  have rest: "search insts caps orders (keep_best caps best p) = Inr (Some r)"
    by simp
  from Cons.prems(2) p keep_best_length [of caps best p]
  have "(\<exists>b. keep_best caps best p = Some b \<and> length b \<le> n)
        \<or> (\<exists>order\<in>set orders. \<exists>p. ffd insts caps order = Inr p \<and> length p \<le> n)"
    by (cases best; cases "keep_best caps best p") auto
  with all show ?case using rest by (rule Cons.IH)
qed

lemma sample_has_memoria_first:
  assumes "valid_sample (permutations RESOURCE_KEYS) 100 smp"
  shows "\<exists>order\<in>set smp. precedes Memoria CPU order"
proof (rule ccontr)
  assume "\<not> (\<exists>order\<in>set smp. precedes Memoria CPU order)"
  with assms have "set smp \<subseteq> set (filter (\<lambda>order. \<not> precedes Memoria CPU order)
                                    (permutations RESOURCE_KEYS))"
    by (auto simp: valid_sample_def)
  then have "card (set smp) \<le> card (set (filter (\<lambda>order. \<not> precedes Memoria CPU order)
                                            (permutations RESOURCE_KEYS)))"
    by (intro card_mono) simp_all
  also have "\<dots> \<le> 60"
    using card_length [of "filter (\<lambda>order. \<not> precedes Memoria CPU order)
                             (permutations RESOURCE_KEYS)"]
    by (simp only: permutations_keys(3))
  finally have "card (set smp) \<le> 60" .
  moreover from assms have "card (set smp) = 100"
    by (simp add: valid_sample_def distinct_card)
  ultimately show False by simp
qed

lemma budget: "min 100 (fact (length RESOURCE_KEYS)) = (100::nat)"
  by (simp add: RESOURCE_KEYS_def fact_numeral)

lemma appending_lowers_the_count:
  assumes "valid_sample (permutations RESOURCE_KEYS) 100 (sample (permutations RESOURCE_KEYS) 100)"
  shows "map_sum id (map_option length) (best_plan sample four caps_6) = Inr (Some 3)"
    and "map_sum id (map_option length) (best_plan sample (four @ [fifth]) caps_6) = Inr (Some 2)"
proof -
  let ?smp = "sample (permutations RESOURCE_KEYS) 100"
  from assms have sub: "set ?smp \<subseteq> set (permutations RESOURCE_KEYS)"
    by (simp add: valid_sample_def)
  from sample_has_memoria_first [OF assms] obtain good
    where good: "good \<in> set ?smp" "precedes Memoria CPU good"
    by blast
  have four3: "\<exists>p. ffd four caps_6 order = Inr p \<and> length p = 3"
    if "order \<in> set (permutations RESOURCE_KEYS)" for order
  proof -
    from four_all_orders that
    have "map_sum id length (ffd four caps_6 order) = Inr 3"
      by (simp add: list_all_iff)
    then show ?thesis by (cases "ffd four caps_6 order") simp_all
  qed
  have five: "\<exists>p. ffd (four @ [fifth]) caps_6 order = Inr p
                \<and> length p = (if precedes Memoria CPU order then 2 else 3)"
    if "order \<in> set (permutations RESOURCE_KEYS)" for order
  proof -
    from five_all_orders that
    have "map_sum id length (ffd (four @ [fifth]) caps_6 order)
            = Inr (if precedes Memoria CPU order then 2 else 3)"
      by (simp add: list_all_iff)
    then show ?thesis by (cases "ffd (four @ [fifth]) caps_6 order") simp_all
  qed
  let ?o4 = "crit_order_of four caps_6 # ?smp"
  let ?o5 = "crit_order_of (four @ [fifth]) caps_6 # ?smp"
  have in4: "set ?o4 \<subseteq> set (permutations RESOURCE_KEYS)"
    and in5: "set ?o5 \<subseteq> set (permutations RESOURCE_KEYS)"
    using sub crit_orders_are_permutations by simp_all
  obtain r4 where r4: "best_plan sample four caps_6 = Inr (Some r4)"
    using best_plan_total [OF caps_6_nonzero] by blast
  obtain r5 where r5: "best_plan sample (four @ [fifth]) caps_6 = Inr (Some r5)"
    using best_plan_total [OF caps_6_nonzero] by blast
  from r4 have s4: "search four caps_6 ?o4 None = Inr (Some r4)"
    by (simp only: best_plan_nonzero [OF caps_6_nonzero] budget)
  from r5 have s5: "search (four @ [fifth]) caps_6 ?o5 None = Inr (Some r5)"
    by (simp only: best_plan_nonzero [OF caps_6_nonzero] budget)
  have "3 \<le> length r4"
  proof (rule search_length_lower [OF _ _ s4])
    show "\<forall>order\<in>set ?o4. \<exists>p. ffd four caps_6 order = Inr p \<and> 3 \<le> length p"
      using four3 in4 by (metis order_refl subsetD)
  qed simp
  moreover have "length r4 \<le> 3"
  proof (rule search_length_upper [OF _ _ s4])
    show "\<forall>order\<in>set ?o4. \<exists>p. ffd four caps_6 order = Inr p"
      using four3 in4 by (meson subsetD)
    have "crit_order_of four caps_6 \<in> set ?o4" by simp
    moreover from four3 [OF crit_orders_are_permutations(1)]
    have "\<exists>p. ffd four caps_6 (crit_order_of four caps_6) = Inr p \<and> length p \<le> 3"
      by auto
    ultimately show "(\<exists>b. None = Some b \<and> length b \<le> 3)
         \<or> (\<exists>order\<in>set ?o4. \<exists>p. ffd four caps_6 order = Inr p \<and> length p \<le> 3)"
      by blast
  qed
  ultimately show "map_sum id (map_option length) (best_plan sample four caps_6) = Inr (Some 3)"
    by (simp add: r4)
  have "2 \<le> length r5"
  proof (rule search_length_lower [OF _ _ s5])
    show "\<forall>order\<in>set ?o5. \<exists>p. ffd (four @ [fifth]) caps_6 order = Inr p \<and> 2 \<le> length p"
    proof
      fix order assume "order \<in> set ?o5"
      with in5 have "order \<in> set (permutations RESOURCE_KEYS)" by blast
      from five [OF this] show "\<exists>p. ffd (four @ [fifth]) caps_6 order = Inr p \<and> 2 \<le> length p"
        by (auto split: if_splits)
    qed
  qed simp
  moreover have "length r5 \<le> 2"
  proof (rule search_length_upper [OF _ _ s5])
    show "\<forall>order\<in>set ?o5. \<exists>p. ffd (four @ [fifth]) caps_6 order = Inr p"
      using five in5 by (meson subsetD)
    from good sub have "good \<in> set (permutations RESOURCE_KEYS)" by blast
    from five [OF this] good(2)
    have "\<exists>p. ffd (four @ [fifth]) caps_6 good = Inr p \<and> length p \<le> 2"
      by auto
    moreover from good(1) have "good \<in> set ?o5" by simp
    ultimately show "(\<exists>b. None = Some b \<and> length b \<le> 2)
         \<or> (\<exists>order\<in>set ?o5. \<exists>p. ffd (four @ [fifth]) caps_6 order = Inr p \<and> length p \<le> 2)"
      by blast
  qed
  ultimately
  show "map_sum id (map_option length) (best_plan sample (four @ [fifth]) caps_6) = Inr (Some 2)"
    by (simp add: r5)
qed

lemma first_k_valid:
  "valid_sample (permutations RESOURCE_KEYS) 100 (first_k (permutations RESOURCE_KEYS) 100)"
  using permutations_keys(1,2)
  by (auto simp: valid_sample_def first_k_def dest: in_set_takeD)

theorem appending_counterexample:
  "map_sum id (map_option length) (best_plan first_k four caps_6) = Inr (Some 3)
   \<and> map_sum id (map_option length) (best_plan first_k (four @ [fifth]) caps_6) = Inr (Some 2)"
  using appending_lowers_the_count [where sample = first_k, OF first_k_valid] by simp

end
